theory Spec2Isabelle
  imports Main "HOL-Library.Word"
begin

section \<open>Machine types of paddle/parameter/Argument.h\<close>

text \<open>
  \<open>size_t\<close> and \<open>int64_t\<close> are 64-bit words (an \<open>int64_t\<close> is read with \<open>sint\<close>),
  \<open>int\<close> is a 32-bit word read with \<open>sint\<close>. A \<open>std::shared_ptr\<close> is an address into
  a store of objects, \<open>None\<close> being \<open>nullptr\<close>: two handles are the same storage
  exactly when they are the same address.
\<close>

type_synonym size_t = "64 word"
type_synonym int64_t = "64 word"
type_synonym c_int = "32 word"
type_synonym addr = nat
type_synonym shared_ptr = "addr option"

section \<open>Storage collaborators\<close>

text \<open>
  Modelled from the spec: the dense matrix of paddle/math/Matrix.h, which is not among
  the sources. The descriptor consumes its row count, its column count and its
  reduce-sum; a matrix is here its row count, its column count and its elements, of
  the numeric type \<open>real\<close> of the library, kept abstract as \<open>'r\<close>.
\<close>

record 'r Matrix =
  getHeight :: size_t
  getWidth :: size_t
  getElements :: "'r list"

text \<open>
  Modelled from the spec: \<open>getSize()\<close> of the integer vectors of
  paddle/math/Vector.h (\<open>IVector\<close>, \<open>ICpuGpuVector\<close>), which are not among the
  sources. A vector is the list of its elements and its size is their number, as a
  \<open>size_t\<close>.
\<close>

definition getSize :: "c_int list \<Rightarrow> size_t" where
  "getSize v = word_of_nat (length v)"

text \<open>\<open>size()\<close> of a \<open>std::vector\<close>.\<close>

definition size_vector :: "'a list \<Rightarrow> size_t" where
  "size_vector v = word_of_nat (length v)"

text \<open>
  Modelled from the spec: \<open>getData(useGpu)\<close> of the host/device mirrored vector
  \<open>ICpuGpuVector\<close>, which is not among the sources: the elements, materialised on the
  host when \<open>useGpu\<close> is false and on the device otherwise.
\<close>

datatype memory_space = Host | Device

definition getData :: "bool \<Rightarrow> c_int list \<Rightarrow> memory_space \<times> c_int list" where
  "getData useGpu v = (if useGpu then Device else Host, v)"

text \<open>
  The objects that handles point to, by address and by kind. A non-empty
  \<open>shared_ptr\<close> keeps its object alive, so every address has an object.
\<close>

record 'r store =
  matrices :: "addr \<Rightarrow> 'r Matrix"
  ivectors :: "addr \<Rightarrow> c_int list"
  icpugpuvectors :: "addr \<Rightarrow> c_int list"
  svectors :: "addr \<Rightarrow> string list"
  udvectors :: "addr \<Rightarrow> addr list"

section \<open>The struct Argument\<close>

text \<open>
  The fields in the order of the struct. The two \<open>LockedCondition\<close> members carry a
  mutex and a condition variable and no data; they are not copied by \<open>operator=\<close>.
\<close>

record Argument =
  in' :: shared_ptr
  value' :: shared_ptr
  ids :: shared_ptr
  grad :: shared_ptr
  strs :: shared_ptr
  frameHeight :: size_t
  frameWidth :: size_t
  sequenceStartPositions :: shared_ptr
  subSequenceStartPositions :: shared_ptr
  cpuSequenceDims :: shared_ptr
  udp :: shared_ptr
  deviceId :: c_int
  allCount :: c_int
  valueCount :: c_int
  gradCount :: c_int
  dataId :: c_int

text \<open>The default constructor \<open>Argument()\<close>.\<close>

definition Argument_default :: Argument where
  "Argument_default =
     \<lparr> in' = None, value' = None, ids = None, grad = None, strs = None,
       frameHeight = 0, frameWidth = 0,
       sequenceStartPositions = None, subSequenceStartPositions = None,
       cpuSequenceDims = None, udp = None,
       deviceId = - 1, allCount = 0, valueCount = 0, gradCount = 0, dataId = 0 \<rparr>"

text \<open>
  \<open>operator=\<close>: \<open>this\<close> is the target before the assignment. Fourteen fields are
  assigned; \<open>valueCount\<close> and \<open>gradCount\<close> are not among them.
\<close>

definition operator_assign :: "Argument \<Rightarrow> Argument \<Rightarrow> Argument" where
  "operator_assign this argument =
     this \<lparr> in' := in' argument,
            value' := value' argument,
            ids := ids argument,
            grad := grad argument,
            strs := strs argument,
            sequenceStartPositions := sequenceStartPositions argument,
            subSequenceStartPositions := subSequenceStartPositions argument,
            cpuSequenceDims := cpuSequenceDims argument,
            udp := udp argument,
            deviceId := deviceId argument,
            allCount := allCount argument,
            frameHeight := frameHeight argument,
            frameWidth := frameWidth argument,
            dataId := dataId argument \<rparr>"

text \<open>
  The copy constructor \<open>Argument(const Argument&)\<close>. It has no member initialiser
  list, so when its body starts the handles of the new object are empty and its scalar
  members hold indeterminate values: \<open>this\<close> is that state, and is arbitrary.
\<close>

definition Argument_copy :: "Argument \<Rightarrow> Argument \<Rightarrow> Argument" where
  "Argument_copy this argument =
     (operator_assign this argument)
       \<lparr> valueCount := 0, gradCount := 0, dataId := dataId argument \<rparr>"

text \<open>\<open>countIncrement\<close> and \<open>getAllCount\<close>.\<close>

definition countIncrement :: "Argument \<Rightarrow> Argument" where
  "countIncrement this = this \<lparr> allCount := allCount this + 1 \<rparr>"

definition getAllCount :: "Argument \<Rightarrow> c_int" where
  "getAllCount this = allCount this"

section \<open>Accessors and derived queries\<close>

text \<open>
  \<open>getBatchSize\<close>: six tests in the order of the source; the \<open>size_t\<close> row count
  is returned as an \<open>int64_t\<close>, the same 64 bits.
\<close>

definition getBatchSize :: "'r store \<Rightarrow> Argument \<Rightarrow> int64_t" where
  "getBatchSize s this =
     (case value' this of Some p \<Rightarrow> getHeight (matrices s p) | None \<Rightarrow>
      case ids this of Some p \<Rightarrow> getSize (ivectors s p) | None \<Rightarrow>
      case grad this of Some p \<Rightarrow> getHeight (matrices s p) | None \<Rightarrow>
      case in' this of Some p \<Rightarrow> getHeight (matrices s p) | None \<Rightarrow>
      case udp this of Some p \<Rightarrow> size_vector (udvectors s p) | None \<Rightarrow>
      case strs this of Some p \<Rightarrow> size_vector (svectors s p) | None \<Rightarrow>
      0)"

definition getFrameHeight :: "Argument \<Rightarrow> size_t" where
  "getFrameHeight this = frameHeight this"

definition getFrameWidth :: "Argument \<Rightarrow> size_t" where
  "getFrameWidth this = frameWidth this"

definition setFrameHeight :: "size_t \<Rightarrow> Argument \<Rightarrow> Argument" where
  "setFrameHeight h this = this \<lparr> frameHeight := h \<rparr>"

definition setFrameWidth :: "size_t \<Rightarrow> Argument \<Rightarrow> Argument" where
  "setFrameWidth w this = this \<lparr> frameWidth := w \<rparr>"

text \<open>
  \<open>getNumSequences\<close> and \<open>getNumSubSequences\<close>: the subtraction is done in
  \<open>size_t\<close> and wraps, then the result is read as an \<open>int64_t\<close>.
\<close>

definition getNumSequences :: "'r store \<Rightarrow> Argument \<Rightarrow> int64_t" where
  "getNumSequences s this =
     (case sequenceStartPositions this of
        Some p \<Rightarrow> getSize (icpugpuvectors s p) - 1
      | None \<Rightarrow> getBatchSize s this)"

definition getNumSubSequences :: "'r store \<Rightarrow> Argument \<Rightarrow> int64_t" where
  "getNumSubSequences s this =
     (case subSequenceStartPositions this of
        Some p \<Rightarrow> getSize (icpugpuvectors s p) - 1
      | None \<Rightarrow> getBatchSize s this)"

definition hasSubseq :: "Argument \<Rightarrow> bool" where
  "hasSubseq this = (subSequenceStartPositions this \<noteq> None)"

text \<open>
  A member access through an empty \<open>shared_ptr\<close> is undefined behaviour; the model
  makes it the value \<open>NullDereference\<close>. \<open>MissingField\<close> is the reported error of
  the specification's taxonomy; no path of the header produces it.
\<close>

datatype failure = NullDereference | MissingField

definition deref :: "shared_ptr \<Rightarrow> (addr \<Rightarrow> 'a) \<Rightarrow> failure + 'a" where
  "deref p objs = (case p of None \<Rightarrow> Inl NullDereference | Some q \<Rightarrow> Inr (objs q))"

text \<open>
  \<open>getCpuStartPositions\<close>: the branch on \<open>hasSubseq()\<close> and nothing else; neither
  handle is tested before \<open>->getData(false)\<close>.
\<close>

definition getCpuStartPositions ::
  "'r store \<Rightarrow> Argument \<Rightarrow> failure + (memory_space \<times> c_int list)" where
  "getCpuStartPositions s this =
     (if hasSubseq this
      then map_sum id (getData False) (deref (subSequenceStartPositions this) (icpugpuvectors s))
      else map_sum id (getData False) (deref (sequenceStartPositions this) (icpugpuvectors s)))"

section \<open>Readiness synchronizer\<close>

text \<open>
  Modelled from the spec: \<open>wait(pred)\<close> of \<open>LockedCondition\<close>
  (paddle/utils/Locks.h, not among the sources). By sections 4.2 and 5 of the
  specification it suspends the caller on the descriptor's condition variable until
  \<open>pred\<close> holds, the predicate being evaluated under the descriptor's lock. A call is
  modelled by its outcome on the state in which it is made, no other thread touching
  the descriptor meanwhile: \<open>Some\<close> of the state it returns in, or \<open>None\<close> when the
  predicate is false and the caller stays suspended.
\<close>

definition wait :: "(Argument \<Rightarrow> bool) \<Rightarrow> Argument \<Rightarrow> Argument option" where
  "wait pred this = (if pred this then Some this else None)"

text \<open>
  Modelled from the spec: \<open>notify_all(op)\<close> of \<open>LockedCondition\<close>, not among the
  sources: it runs \<open>op\<close> under the descriptor's lock and wakes all waiters, which
  then evaluate their predicates again.
\<close>

definition notify_all :: "(Argument \<Rightarrow> Argument) \<Rightarrow> Argument \<Rightarrow> Argument" where
  "notify_all op this = op this"

text \<open>
  \<open>notifyValueReady\<close>: \<open>valueCount = allCount\<close>, in one critical section.
\<close>

definition notifyValueReady :: "Argument \<Rightarrow> Argument" where
  "notifyValueReady this = notify_all (\<lambda>a. a \<lparr> valueCount := allCount a \<rparr>) this"

text \<open>
  \<open>waitGradReady\<close>: the wait on \<open>gradCount == allCount\<close>, then \<open>gradCount = 0\<close>.
  \<open>notifyGradReady\<close>: \<open>gradCount++\<close>.
\<close>

definition waitGradReady :: "Argument \<Rightarrow> Argument option" where
  "waitGradReady this =
     (case wait (\<lambda>a. gradCount a = allCount a) this of
        None \<Rightarrow> None
      | Some this \<Rightarrow> Some (this \<lparr> gradCount := 0 \<rparr>))"

definition notifyGradReady :: "Argument \<Rightarrow> Argument" where
  "notifyGradReady this = notify_all (\<lambda>a. a \<lparr> gradCount := gradCount a + 1 \<rparr>) this"

text \<open>
  \<open>waitValueReady\<close> has two statements, and each is a critical section of its own:
  \<open>valueReadyCond.wait\<close> tests \<open>valueCount != 0\<close> under the mutex and gives the
  mutex back when it returns; then a \<open>lock_guard\<close> takes the mutex again for
  \<open>valueCount--\<close>. Other threads can run between the two.
\<close>

definition waitValueReady_wait :: "Argument \<Rightarrow> Argument option" where
  "waitValueReady_wait this = wait (\<lambda>a. valueCount a \<noteq> 0) this"

definition waitValueReady_decrement :: "Argument \<Rightarrow> Argument" where
  "waitValueReady_decrement this = this \<lparr> valueCount := valueCount this - 1 \<rparr>"

text \<open>
  The threads that are inside \<open>waitValueReady\<close> on one descriptor. A caller is
  \<open>Waiting\<close> until its \<open>wait\<close> has returned, then \<open>Woken\<close> until it has
  decremented \<open>valueCount\<close>, then \<open>Returned\<close>. \<open>waitValueReady_step i\<close> lets
  caller \<open>i\<close> run its next critical section; a \<open>Waiting\<close> caller whose predicate is
  false stays suspended. A schedule is the order in which the callers get their turns,
  and \<open>run_waiters\<close> runs one.
\<close>

datatype waiter = Waiting | Woken | Returned

fun waitValueReady_step :: "nat \<Rightarrow> Argument \<times> waiter list \<Rightarrow> Argument \<times> waiter list" where
  "waitValueReady_step i (this, ws) =
     (if i < length ws then
        (case ws ! i of
           Waiting \<Rightarrow>
             (case waitValueReady_wait this of
                None \<Rightarrow> (this, ws)
              | Some this' \<Rightarrow> (this', ws[i := Woken]))
         | Woken \<Rightarrow> (waitValueReady_decrement this, ws[i := Returned])
         | Returned \<Rightarrow> (this, ws))
      else (this, ws))"

declare waitValueReady_step.simps [simp del]

definition run_waiters :: "nat list \<Rightarrow> Argument \<times> waiter list \<Rightarrow> Argument \<times> waiter list" where
  "run_waiters schedule c = fold waitValueReady_step schedule c"

section \<open>Cost summation\<close>

text \<open>
  The device context: the device that is active, and a record of each reduce-sum that
  has run, with the device active at that moment and the matrix summed.
\<close>

record device_context =
  active_device :: c_int
  reduce_log :: "(c_int \<times> addr) list"

text \<open>
  Modelled from the spec: the constructor of the scoped guard \<open>SetDevice\<close>, which is
  declared outside the sources. By section 4.1 and the design notes of the
  specification it switches the active device context to the given id; the guard
  remembers the context that was active before.
\<close>

definition SetDevice :: "c_int \<Rightarrow> device_context \<Rightarrow> c_int \<times> device_context" where
  "SetDevice dev d = (active_device d, d \<lparr> active_device := dev \<rparr>)"

text \<open>
  Modelled from the spec: the destructor of \<open>SetDevice\<close>, run when the scope of the
  guard ends: it restores the device context that was active before.
\<close>

definition SetDevice_destroy :: "c_int \<Rightarrow> device_context \<Rightarrow> device_context" where
  "SetDevice_destroy previous d = d \<lparr> active_device := previous \<rparr>"

text \<open>
  Modelled from the spec: \<open>getSum()\<close> of the matrix collaborator, on the device that
  is active. The kernel that computes the sum of a matrix is the parameter
  \<open>getSum\<close>, and the numeric type \<open>real\<close> is any type with a zero and an addition.
\<close>

definition Matrix_getSum ::
  "('r Matrix \<Rightarrow> 'r) \<Rightarrow> 'r store \<Rightarrow> addr \<Rightarrow> device_context \<Rightarrow> 'r \<times> device_context" where
  "Matrix_getSum getSum s p d =
     (getSum (matrices s p), d \<lparr> reduce_log := reduce_log d @ [(active_device d, p)] \<rparr>)"

text \<open>
  \<open>sumCosts\<close>: the range-for loop over \<open>arguments\<close> with the accumulator
  \<open>cost\<close>, started at 0; the guard lives for one iteration.
\<close>

fun sumCosts_loop ::
  "('r Matrix \<Rightarrow> 'r::{zero,plus}) \<Rightarrow> 'r store \<Rightarrow> Argument list \<Rightarrow> 'r \<Rightarrow> device_context
     \<Rightarrow> 'r \<times> device_context" where
  "sumCosts_loop getSum s [] cost d = (cost, d)"
| "sumCosts_loop getSum s (arg # arguments) cost d =
     (case value' arg of
        None \<Rightarrow> sumCosts_loop getSum s arguments cost d
      | Some p \<Rightarrow>
          (let (device, d1) = SetDevice (deviceId arg) d;
               (x, d2) = Matrix_getSum getSum s p d1;
               cost' = cost + x;
               d3 = SetDevice_destroy device d2
           in sumCosts_loop getSum s arguments cost' d3))"

definition sumCosts ::
  "('r Matrix \<Rightarrow> 'r::{zero,plus}) \<Rightarrow> 'r store \<Rightarrow> Argument list \<Rightarrow> device_context
     \<Rightarrow> 'r \<times> device_context" where
  "sumCosts getSum s arguments d = sumCosts_loop getSum s arguments 0 d"

section \<open>Structural operators declared in the header\<close>

text \<open>
  Modelled from the spec: the body of \<open>splitByDataId\<close>, which the header only
  declares. By section 4.3 the descriptors are put into groups in their order, a new
  group starting each time \<open>dataId\<close> decreases relative to the previous descriptor's
  \<open>dataId\<close>; \<open>dataId\<close> is an \<open>int\<close> and is compared as a signed number. The
  groups are returned instead of being written through \<open>arguGroups\<close>.
\<close>

fun splitByDataId :: "Argument list \<Rightarrow> Argument list list" where
  "splitByDataId [] = []"
| "splitByDataId [argu] = [[argu]]"
| "splitByDataId (previous # argu # argus) =
     (if sint (dataId argu) < sint (dataId previous)
      then [previous] # splitByDataId (argu # argus)
      else (case splitByDataId (argu # argus) of
              [] \<Rightarrow> [[previous]]
            | grp # grps \<Rightarrow> (previous # grp) # grps))"

text \<open>
  Modelled from the spec: the value matrices that \<open>concat(sources)\<close> reads. The
  sources share a column width, so every source is to have a value; \<open>None\<close> when
  one has none.
\<close>

fun sourceValues :: "'r store \<Rightarrow> Argument list \<Rightarrow> 'r Matrix list option" where
  "sourceValues s [] = Some []"
| "sourceValues s (arg # src) =
     (case value' arg of
        None \<Rightarrow> None
      | Some p \<Rightarrow> map_option ((#) (matrices s p)) (sourceValues s src))"

text \<open>
  Modelled from the spec: the boundary vectors that \<open>concat(sources)\<close> reads, each
  with the batch size of its source converted to \<open>int\<close>; \<open>None\<close> when a source
  has no boundary vector.
\<close>

fun sourceStartPositions :: "'r store \<Rightarrow> Argument list \<Rightarrow> (c_int \<times> c_int list) list option" where
  "sourceStartPositions s [] = Some []"
| "sourceStartPositions s (arg # src) =
     (case sequenceStartPositions arg of
        None \<Rightarrow> None
      | Some p \<Rightarrow> map_option ((#) (ucast (getBatchSize s arg), icpugpuvectors s p))
                              (sourceStartPositions s src))"

text \<open>
  Modelled from the spec: the requirement of \<open>concat(sources)\<close> that all sources
  share the column width.
\<close>

definition sameWidth :: "'r Matrix list \<Rightarrow> bool" where
  "sameWidth ms = (case ms of [] \<Rightarrow> True | m # rest \<Rightarrow> list_all (\<lambda>m'. getWidth m' = getWidth m) rest)"

text \<open>
  Modelled from the spec: the row concatenation provided by the matrix collaborator;
  the rows of the sources in order, the row counts added as \<open>size_t\<close>.
\<close>

definition concatRows :: "'r Matrix list \<Rightarrow> 'r Matrix" where
  "concatRows ms =
     \<lparr> getHeight = sum_list (map getHeight ms),
       getWidth = (case ms of [] \<Rightarrow> 0 | m # _ \<Rightarrow> getWidth m),
       getElements = concat (map getElements ms) \<rparr>"

text \<open>
  Modelled from the spec: the boundary vectors of the sources concatenated with a
  running offset. The entries of a source are shifted by the number of rows of the
  sources before it; its last entry, which is its batch size, is not written, the
  first entry of the next source or the closing total standing at that place.
\<close>

fun concatStartPositions :: "c_int \<Rightarrow> (c_int \<times> c_int list) list \<Rightarrow> c_int list" where
  "concatStartPositions offset [] = [offset]"
| "concatStartPositions offset ((batch, starts) # rest) =
     map (\<lambda>p. p + offset) (butlast starts) @ concatStartPositions (offset + batch) rest"

text \<open>
  Modelled from the spec: the body of the overload \<open>concat(sources)\<close>, which the
  header only declares. \<open>this\<close> receives a value matrix holding the rows of all
  sources and, when every source has a boundary vector, the concatenated boundary
  vector. \<open>valueAddr\<close> and \<open>seqAddr\<close> are the addresses at which the storage
  collaborator places the two results. \<open>None\<close> is returned when a source has no value
  or the widths differ.
\<close>

definition concat' ::
  "'r store \<Rightarrow> Argument \<Rightarrow> Argument list \<Rightarrow> addr \<Rightarrow> addr \<Rightarrow> ('r store \<times> Argument) option" where
  "concat' s this src valueAddr seqAddr =
     (case sourceValues s src of
        None \<Rightarrow> None
      | Some ms \<Rightarrow>
          if \<not> sameWidth ms then None
          else
            (let s1 = s \<lparr> matrices := (matrices s)(valueAddr := concatRows ms) \<rparr>;
                 this1 = this \<lparr> value' := Some valueAddr \<rparr>
             in case sourceStartPositions s src of
                  None \<Rightarrow> Some (s1, this1 \<lparr> sequenceStartPositions := None \<rparr>)
                | Some bs \<Rightarrow>
                    Some (s1 \<lparr> icpugpuvectors :=
                                 (icpugpuvectors s1)(seqAddr := concatStartPositions 0 bs) \<rparr>,
                          this1 \<lparr> sequenceStartPositions := Some seqAddr \<rparr>)))"

section \<open>Notions used in the statements\<close>

text \<open>
  The specification's wording of the batch size: the row count of the first field that
  is present, looking at value, ids, grad, in, udp, strs in this order, and 0 when none
  is. A row count is the height of a matrix and the number of elements of a vector.
\<close>

definition rowCounts :: "'r store \<Rightarrow> Argument \<Rightarrow> size_t option list" where
  "rowCounts s this =
     [ map_option (\<lambda>p. getHeight (matrices s p)) (value' this),
       map_option (\<lambda>p. word_of_nat (length (ivectors s p))) (ids this),
       map_option (\<lambda>p. getHeight (matrices s p)) (grad this),
       map_option (\<lambda>p. getHeight (matrices s p)) (in' this),
       map_option (\<lambda>p. word_of_nat (length (udvectors s p))) (udp this),
       map_option (\<lambda>p. word_of_nat (length (svectors s p))) (strs this) ]"

fun firstPresent :: "'a option list \<Rightarrow> 'a option" where
  "firstPresent [] = None"
| "firstPresent (None # xs) = firstPresent xs"
| "firstPresent (Some x # xs) = Some x"

definition batchSize_spec :: "'r store \<Rightarrow> Argument \<Rightarrow> int64_t" where
  "batchSize_spec s this = (case firstPresent (rowCounts s this) of Some n \<Rightarrow> n | None \<Rightarrow> 0)"

text \<open>Calling \<open>notifyGradReady\<close> \<open>n\<close> times in a row.\<close>

fun notifyGradReady_times :: "nat \<Rightarrow> Argument \<Rightarrow> Argument" where
  "notifyGradReady_times 0 this = this"
| "notifyGradReady_times (Suc n) this = notifyGradReady_times n (notifyGradReady this)"

text \<open>
  The descriptors that \<open>sumCosts\<close> is to sum, in order: for each one that has a
  value, its device id and the address of its value matrix.
\<close>

definition summed :: "Argument list \<Rightarrow> (c_int \<times> addr) list" where
  "summed arguments =
     concat (map (\<lambda>arg. case value' arg of None \<Rightarrow> [] | Some p \<Rightarrow> [(deviceId arg, p)]) arguments)"

text \<open>
  A boundary vector is well formed for a batch size when it is not empty, starts with
  0, ends with the batch size and never decreases (section 3 of the specification).
  A source of \<open>concat\<close> is well formed when it has such a vector.
\<close>

definition wellFormedStarts :: "c_int \<times> c_int list \<Rightarrow> bool" where
  "wellFormedStarts bs =
     (case bs of (batch, starts) \<Rightarrow>
        starts \<noteq> [] \<and> hd starts = 0 \<and> last starts = batch \<and> sorted (map sint starts))"

definition wellFormedSource :: "'r store \<Rightarrow> Argument \<Rightarrow> bool" where
  "wellFormedSource s arg =
     (case sequenceStartPositions arg of
        None \<Rightarrow> False
      | Some p \<Rightarrow> wellFormedStarts (ucast (getBatchSize s arg), icpugpuvectors s p))"

text \<open>
  The number of callers that have not returned yet, the state a caller reaches after
  \<open>n\<close> effective turns, and the relation between \<open>valueCount\<close> and the callers
  that holds while they run.
\<close>

definition pending :: "waiter list \<Rightarrow> nat" where
  "pending ws = length (filter (\<lambda>w. w \<noteq> Returned) ws)"

fun advance :: "nat \<Rightarrow> waiter \<Rightarrow> waiter" where
  "advance 0 w = w"
| "advance (Suc n) Waiting = advance n Woken"
| "advance (Suc n) Woken = Returned"
| "advance (Suc n) Returned = Returned"

definition counts_pending :: "Argument \<times> waiter list \<Rightarrow> bool" where
  "counts_pending c = (case c of (this, ws) \<Rightarrow>
     length ws < 2 ^ 31 \<and> valueCount this = word_of_nat (pending ws))"

section \<open>Concrete descriptors used in the examples\<close>

definition store0 :: "int store" where
  "store0 =
     \<lparr> matrices = (\<lambda>_. \<lparr> getHeight = 0, getWidth = 0, getElements = [] \<rparr>),
       ivectors = (\<lambda>_. []),
       icpugpuvectors = (\<lambda>_. []),
       svectors = (\<lambda>_. []),
       udvectors = (\<lambda>_. []) \<rparr>"

definition store_seq :: "int store" where
  "store_seq = store0 \<lparr> icpugpuvectors := (\<lambda>_. [])(1 := [0, 4], 2 := [0, 2, 4]) \<rparr>"

definition arg_seq :: Argument where
  "arg_seq = Argument_default \<lparr> sequenceStartPositions := Some 1 \<rparr>"

definition arg_subseq :: Argument where
  "arg_subseq = Argument_default \<lparr> sequenceStartPositions := Some 1,
                                     subSequenceStartPositions := Some 2 \<rparr>"

definition arg_fan1 :: Argument where
  "arg_fan1 = Argument_default \<lparr> allCount := 1 \<rparr>"

definition arg_fan3 :: Argument where
  "arg_fan3 = Argument_default \<lparr> allCount := 3 \<rparr>"

text \<open>Descriptors that differ from the default one in their \<open>dataId\<close> only.\<close>

definition args_with_dataIds :: "c_int list \<Rightarrow> Argument list" where
  "args_with_dataIds ds = map (\<lambda>d. Argument_default \<lparr> dataId := d \<rparr>) ds"

text \<open>
  Two descriptors with 4 and 5 rows of width 2 and the boundary vectors \<open>[0, 4]\<close>
  and \<open>[0, 5]\<close>.
\<close>

definition store_4_5 :: "int store" where
  "store_4_5 = store0
     \<lparr> matrices := (matrices store0)
          (1 := \<lparr> getHeight = 4, getWidth = 2, getElements = [1, 2, 3, 4, 5, 6, 7, 8] \<rparr>,
           2 := \<lparr> getHeight = 5, getWidth = 2, getElements = [9, 10, 11, 12, 13, 14, 15, 16, 17, 18] \<rparr>),
       icpugpuvectors := (icpugpuvectors store0)(1 := [0, 4], 2 := [0, 5]) \<rparr>"

definition arg_4 :: Argument where
  "arg_4 = Argument_default \<lparr> value' := Some 1, sequenceStartPositions := Some 1 \<rparr>"

definition arg_5 :: Argument where
  "arg_5 = Argument_default \<lparr> value' := Some 2, sequenceStartPositions := Some 2 \<rparr>"

section \<open>Reading words as signed numbers\<close>

lemma sint_word_of_nat:
  assumes "n < 2 ^ (LENGTH('a::len) - 1)"
  shows "sint (word_of_nat n :: 'a word) = int n"
proof -
  have "int n < 2 ^ (LENGTH('a) - 1)"
    using assms by (metis of_nat_less_iff of_nat_numeral of_nat_power)
  moreover have "- (2 ^ (LENGTH('a) - 1)) \<le> int n"
    by (rule order_trans [of _ 0]) simp_all
  ultimately have "signed_take_bit (LENGTH('a) - 1) (int n) = int n"
    by (intro signed_take_bit_int_eq_self)
  then show ?thesis by (simp add: signed_of_nat)
qed

lemma sint_len_minus_one:
  assumes "n \<le> 2 ^ 63"
  shows "sint (word_of_nat n - 1 :: 64 word) = int n - 1"
proof (cases n)
  case 0
  then show ?thesis by simp
next
  case (Suc m)
  with assms have "m < 2 ^ (LENGTH(64) - 1)" by simp
  then have "sint (word_of_nat m :: 64 word) = int m"
    by (rule sint_word_of_nat)
  with Suc show ?thesis by simp
qed

lemma uint_nonneg_sint:
  assumes "0 \<le> sint (w :: 'a::len word)"
  shows "uint w = sint w"
proof -
  have "sint w < 2 ^ LENGTH('a)"
    by (rule less_le_trans [OF sint_lt]) simp
  with assms have "take_bit LENGTH('a) (sint w) = sint w"
    by (simp add: take_bit_int_eq_self)
  then show ?thesis by (simp add: uint_sint)
qed

lemma unat_nonneg_sint:
  assumes "0 \<le> sint (w :: 'a::len word)"
  shows "unat w = nat (sint w)" and "word_of_nat (nat (sint w)) = w"
proof -
  show u: "unat w = nat (sint w)"
    using uint_nonneg_sint [OF assms] by (simp add: unat_eq_nat_uint)
  have "word_of_nat (unat w) = w" by simp
  with u show "word_of_nat (nat (sint w)) = w" by simp
qed



lemma sint_add_no_overflow:
  assumes "0 \<le> sint (x :: 'a::len word)" "0 \<le> sint y"
    and "sint x + sint y < 2 ^ (LENGTH('a) - 1)"
  shows "sint (x + y) = sint x + sint y"
proof -
  have "- (2 ^ (LENGTH('a) - 1)) \<le> sint x + sint y"
    by (rule order_trans [of _ 0]) (use assms in simp_all)
  with assms(3) have "signed_take_bit (LENGTH('a) - 1) (sint x + sint y) = sint x + sint y"
    by (intro signed_take_bit_int_eq_self)
  then show ?thesis by (simp add: sint_word_add)
qed

lemma sint_ucast_small:
  assumes "unat (h :: 64 word) < 2 ^ 31"
  shows "sint (ucast h :: 32 word) = int (unat h)"
proof -
  have "(ucast h :: 32 word) = word_of_nat (unat h)" by simp
  moreover have "unat h < 2 ^ (LENGTH(32) - 1)" using assms by simp
  ultimately show ?thesis by (simp only: sint_word_of_nat)
qed

lemma unat_sum_list:
  "sum_list (map unat hs) < 2 ^ LENGTH('a) \<Longrightarrow>
   unat (sum_list hs :: 'a::len word) = sum_list (map unat hs)"
proof (induction hs)
  case Nil
  show ?case by simp
next
  case (Cons h hs)
  then have "unat (sum_list hs) = sum_list (map unat hs)" by simp
  with Cons.prems show ?case by (simp add: unat_add_lem [THEN iffD1])
qed


section \<open>Copying and assigning descriptors\<close>

text \<open>
  C3. Copy construction: whatever the new object held before and whatever the counters
  of the source are, the copy has \<open>valueCount = 0\<close> and \<open>gradCount = 0\<close> and agrees
  with the source on every other field. The handles of the copy are the addresses held
  by the source, and no store is involved: the storage is shared, not duplicated.
\<close>

theorem copy_resets_counters_shares_rest:
  "Argument_copy this a = a \<lparr> valueCount := 0, gradCount := 0 \<rparr>
   \<and> valueCount (Argument_copy this a) = 0
   \<and> gradCount (Argument_copy this a) = 0
   \<and> in' (Argument_copy this a) = in' a
   \<and> value' (Argument_copy this a) = value' a
   \<and> ids (Argument_copy this a) = ids a
   \<and> grad (Argument_copy this a) = grad a
   \<and> strs (Argument_copy this a) = strs a
   \<and> sequenceStartPositions (Argument_copy this a) = sequenceStartPositions a
   \<and> subSequenceStartPositions (Argument_copy this a) = subSequenceStartPositions a
   \<and> cpuSequenceDims (Argument_copy this a) = cpuSequenceDims a
   \<and> udp (Argument_copy this a) = udp a"
  by (simp add: Argument_copy_def operator_assign_def)

text \<open>
  C4 as stated fails: the assignment leaves the counters of the target as they were.
  A target with \<open>valueCount = 3\<close> and \<open>gradCount = 2\<close> still has them afterwards.
\<close>

theorem assign_keeps_target_counters_counterexample:
  "\<not> (valueCount (operator_assign (Argument_default \<lparr> valueCount := 3, gradCount := 2 \<rparr>)
                                   Argument_default) = 0
      \<and> gradCount (operator_assign (Argument_default \<lparr> valueCount := 3, gradCount := 2 \<rparr>)
                                   Argument_default) = 0)"
  by (simp add: operator_assign_def Argument_default_def)

text \<open>
  C4, amended. After \<open>b = a\<close> the target keeps its own \<open>valueCount\<close> and
  \<open>gradCount\<close>, never taking those of the source, and every other field is the
  source's.
\<close>

theorem assign_never_transfers_counters:
  "operator_assign b a = a \<lparr> valueCount := valueCount b, gradCount := gradCount b \<rparr>
   \<and> valueCount (operator_assign b a) = valueCount b
   \<and> gradCount (operator_assign b a) = gradCount b"
  by (simp add: operator_assign_def)

section \<open>Batch size and sequence counts\<close>

text \<open>
  C5. \<open>getBatchSize\<close> is the row count of the first present field in the order
  value, ids, grad, in, udp, strs, and 0 when none of them is present.
\<close>

theorem getBatchSize_first_present:
  "getBatchSize s a = batchSize_spec s a"
  by (simp add: getBatchSize_def batchSize_spec_def rowCounts_def getSize_def size_vector_def
      split: option.splits)

text \<open>
  C7. With \<open>sequenceStartPositions\<close> present, \<open>getNumSequences\<close> is its length
  minus one: as 64-bit words always, and as a signed number whenever the length is at
  most \<open>2 ^ 63\<close> (an empty vector gives \<open>-1\<close>). With it absent,
  \<open>getNumSequences\<close> is \<open>getBatchSize\<close>.
\<close>

theorem getNumSequences_length_or_batch:
  "(sequenceStartPositions a = Some p \<longrightarrow>
      getNumSequences s a = word_of_nat (length (icpugpuvectors s p)) - 1
      \<and> (length (icpugpuvectors s p) \<le> 2 ^ 63 \<longrightarrow>
           sint (getNumSequences s a) = int (length (icpugpuvectors s p)) - 1))
   \<and> (sequenceStartPositions a = None \<longrightarrow> getNumSequences s a = getBatchSize s a)"
  by (simp add: getNumSequences_def getSize_def sint_len_minus_one)

theorem getNumSequences_length_or_batch_witness:
  "sequenceStartPositions arg_seq = Some 1
   \<and> length (icpugpuvectors store_seq 1) \<le> 2 ^ 63
   \<and> getNumSequences store_seq arg_seq = 1
   \<and> sint (getNumSequences store_seq arg_seq) = 1
   \<and> sequenceStartPositions Argument_default = None
   \<and> getNumSequences store_seq Argument_default = getBatchSize store_seq Argument_default"
  using getNumSequences_length_or_batch [of arg_seq 1 store_seq]
    getNumSequences_length_or_batch [of Argument_default 1 store_seq]
  by (simp add: arg_seq_def store_seq_def store0_def Argument_default_def)

section \<open>Host start positions\<close>

text \<open>
  C6 as stated fails: with neither boundary vector present, \<open>getCpuStartPositions\<close>
  goes through the empty \<open>sequenceStartPositions\<close> handle; no \<open>MissingField\<close> error
  is reported.
\<close>

theorem getCpuStartPositions_missing_counterexample:
  "getCpuStartPositions store0 Argument_default \<noteq> Inl MissingField
   \<and> getCpuStartPositions store0 Argument_default = Inl NullDereference"
  by (simp add: getCpuStartPositions_def hasSubseq_def deref_def Argument_default_def)

text \<open>
  C6, amended. When \<open>subSequenceStartPositions\<close> is present the result is its host
  data; when only \<open>sequenceStartPositions\<close> is present the result is its host data;
  when neither is present the call dereferences an empty handle and reports nothing.
\<close>

theorem getCpuStartPositions_finer_or_null:
  "(subSequenceStartPositions a = Some p \<longrightarrow>
      getCpuStartPositions s a = Inr (Host, icpugpuvectors s p))
   \<and> (subSequenceStartPositions a = None \<and> sequenceStartPositions a = Some q \<longrightarrow>
      getCpuStartPositions s a = Inr (Host, icpugpuvectors s q))
   \<and> (subSequenceStartPositions a = None \<and> sequenceStartPositions a = None \<longrightarrow>
      getCpuStartPositions s a = Inl NullDereference)"
  by (simp add: getCpuStartPositions_def hasSubseq_def deref_def getData_def)

theorem getCpuStartPositions_finer_or_null_witness:
  "subSequenceStartPositions arg_subseq = Some 2
   \<and> getCpuStartPositions store_seq arg_subseq = Inr (Host, [0, 2, 4])
   \<and> subSequenceStartPositions arg_seq = None \<and> sequenceStartPositions arg_seq = Some 1
   \<and> getCpuStartPositions store_seq arg_seq = Inr (Host, [0, 4])
   \<and> subSequenceStartPositions Argument_default = None
   \<and> sequenceStartPositions Argument_default = None
   \<and> getCpuStartPositions store_seq Argument_default = Inl NullDereference"
  using getCpuStartPositions_finer_or_null [of arg_subseq 2 store_seq 1]
    getCpuStartPositions_finer_or_null [of arg_seq 2 store_seq 1]
    getCpuStartPositions_finer_or_null [of Argument_default 2 store_seq 1]
  by (simp add: arg_subseq_def arg_seq_def store_seq_def store0_def Argument_default_def)

section \<open>The readiness protocol\<close>

lemma notifyGradReady_times_run:
  "notifyGradReady_times i a = a \<lparr> gradCount := gradCount a + word_of_nat i \<rparr>"
  by (induction i arbitrary: a) (simp_all add: notifyGradReady_def notify_all_def algebra_simps)

text \<open>
  C2. With \<open>allCount = k\<close> and \<open>gradCount = 0\<close>: each \<open>notifyGradReady\<close> adds one
  to \<open>gradCount\<close>, which is \<open>i\<close> after \<open>i\<close> calls; a \<open>waitGradReady\<close> made after
  fewer than \<open>k\<close> calls is suspended; after \<open>k\<close> calls \<open>gradCount\<close> equals
  \<open>allCount\<close> and \<open>waitGradReady\<close> returns with \<open>gradCount\<close> back at 0, the
  descriptor being again in the state it started in.
\<close>

theorem grad_ready_protocol:
  assumes "0 \<le> sint (allCount a)" and "gradCount a = 0"
  shows "(\<forall>i. gradCount (notifyGradReady (notifyGradReady_times i a))
               = gradCount (notifyGradReady_times i a) + 1)
    \<and> (\<forall>i \<le> nat (sint (allCount a)). sint (gradCount (notifyGradReady_times i a)) = int i)
    \<and> (\<forall>i < nat (sint (allCount a)). waitGradReady (notifyGradReady_times i a) = None)
    \<and> gradCount (notifyGradReady_times (nat (sint (allCount a))) a) = allCount a
    \<and> waitGradReady (notifyGradReady_times (nat (sint (allCount a))) a) = Some a"
proof -
  let ?k = "nat (sint (allCount a))"
  have kw: "word_of_nat ?k = allCount a"
    by (rule unat_nonneg_sint(2) [OF assms(1)])
  have "int ?k < 2 ^ (LENGTH(32) - 1)"
    using sint_lt [of "allCount a"] assms(1) by simp
  then have kb: "?k < 2 ^ (LENGTH(32) - 1)"
    by (metis of_nat_less_iff of_nat_numeral of_nat_power)
  have st: "notifyGradReady_times i a = a \<lparr> gradCount := word_of_nat i \<rparr>" for i
    by (simp add: notifyGradReady_times_run assms(2))
  have inc: "gradCount (notifyGradReady (notifyGradReady_times i a))
               = gradCount (notifyGradReady_times i a) + 1" for i
    by (simp add: notifyGradReady_def notify_all_def)
  have cnt: "sint (gradCount (notifyGradReady_times i a)) = int i" if "i \<le> ?k" for i
  proof -
    from that kb have "i < 2 ^ (LENGTH(32) - 1)" by (rule le_less_trans)
    then have "sint (word_of_nat i :: 32 word) = int i" by (rule sint_word_of_nat)
    then show ?thesis by (simp add: st)
  qed
  have blocked: "waitGradReady (notifyGradReady_times i a) = None" if "i < ?k" for i
  proof -
    from that have "i \<le> ?k" by simp
    from cnt [OF this] that assms(1)
    have "sint (gradCount (notifyGradReady_times i a)) \<noteq> sint (allCount a)" by linarith
    then have "gradCount (notifyGradReady_times i a) \<noteq> allCount a" by auto
    then show ?thesis by (simp add: waitGradReady_def wait_def st)
  qed
  have full: "gradCount (notifyGradReady_times ?k a) = allCount a"
    by (simp add: st kw)
  have "a \<lparr> gradCount := 0 \<rparr> = a" using assms(2) by simp
  then have ret: "waitGradReady (notifyGradReady_times ?k a) = Some a"
    by (simp add: waitGradReady_def wait_def st kw)
  from inc cnt blocked full ret show ?thesis by blast
qed

theorem grad_ready_protocol_witness:
  "0 \<le> sint (allCount arg_fan3) \<and> gradCount arg_fan3 = 0
   \<and> waitGradReady (notifyGradReady_times 2 arg_fan3) = None
   \<and> gradCount (notifyGradReady_times 3 arg_fan3) = 3
   \<and> waitGradReady (notifyGradReady_times 3 arg_fan3) = Some arg_fan3"
proof -
  have h1: "0 \<le> sint (allCount arg_fan3)" and h2: "gradCount arg_fan3 = 0"
    by (simp_all add: arg_fan3_def Argument_default_def)
  have a: "allCount arg_fan3 = 3"
    by (simp add: arg_fan3_def Argument_default_def)
  from grad_ready_protocol [OF h1 h2] h1 h2 show ?thesis
    by (simp add: a)
qed


section \<open>Callers of waitValueReady\<close>

lemma pending_update_same:
  "i < length ws \<Longrightarrow> ws ! i \<noteq> Returned \<Longrightarrow> w \<noteq> Returned \<Longrightarrow> pending (ws[i := w]) = pending ws"
proof (induction ws arbitrary: i)
  case Nil
  then show ?case by simp
next
  case (Cons a ws)
  then show ?case by (cases i) (auto simp: pending_def)
qed

lemma pending_update_Returned:
  "i < length ws \<Longrightarrow> ws ! i \<noteq> Returned \<Longrightarrow> Suc (pending (ws[i := Returned])) = pending ws"
proof (induction ws arbitrary: i)
  case Nil
  then show ?case by simp
next
  case (Cons a ws)
  then show ?case by (cases i) (auto simp: pending_def)
qed

lemma pending_le_length: "pending ws \<le> length ws"
  by (simp add: pending_def)

lemma pending_all_Returned: "pending ws = 0 \<longleftrightarrow> (\<forall>w \<in> set ws. w = Returned)"
  by (auto simp: pending_def filter_empty_conv)

lemma word_of_nat_pending_nonzero:
  assumes "0 < n" "n < 2 ^ 31"
  shows "(word_of_nat n :: c_int) \<noteq> 0"
proof
  assume "(word_of_nat n :: c_int) = 0"
  then have "sint (word_of_nat n :: c_int) = 0" by simp
  moreover have "n < 2 ^ (LENGTH(32) - 1)" using assms(2) by simp
  ultimately have "int n = 0" by (simp only: sint_word_of_nat)
  with assms(1) show False by simp
qed

lemma waitValueReady_step_invariant:
  assumes "counts_pending (this, ws)"
  shows "counts_pending (waitValueReady_step i (this, ws))
       \<and> snd (waitValueReady_step i (this, ws)) = (if i < length ws then ws[i := advance 1 (ws ! i)] else ws)"
proof (cases "i < length ws")
  case False
  with assms show ?thesis by (simp add: waitValueReady_step.simps)
next
  case True
  from assms have len: "length ws < 2 ^ 31" and vc: "valueCount this = word_of_nat (pending ws)"
    by (simp_all add: counts_pending_def)
  show ?thesis
  proof (cases "ws ! i")
    case Waiting
    with True have "0 < pending ws"
      using pending_update_Returned [of i ws] by simp
    moreover have "pending ws < 2 ^ 31"
      using pending_le_length [of ws] len by simp
    ultimately have "valueCount this \<noteq> 0"
      unfolding vc by (rule word_of_nat_pending_nonzero)
    with Waiting True len vc show ?thesis
      by (simp add: waitValueReady_step.simps waitValueReady_wait_def wait_def counts_pending_def
          pending_update_same)
  next
    case Woken
    with True have "Suc (pending (ws[i := Returned])) = pending ws"
      using pending_update_Returned [of i ws] by simp
    then have "(word_of_nat (pending ws) :: c_int)
                 = word_of_nat (Suc (pending (ws[i := Returned])))"
      by (rule arg_cong [OF sym])
    then have "word_of_nat (pending ws) - 1 = (word_of_nat (pending (ws[i := Returned])) :: c_int)"
      by simp
    with Woken True len vc show ?thesis
      by (simp add: waitValueReady_step.simps waitValueReady_decrement_def counts_pending_def)
  next
    case Returned
    have "ws[i := ws ! i] = ws" by (rule list_update_id)
    with Returned have "ws[i := Returned] = ws" by simp
    with Returned True assms show ?thesis by (simp add: waitValueReady_step.simps)
  qed
qed


lemma run_waiters_invariant:
  assumes "counts_pending (this, ws)"
  shows "counts_pending (run_waiters schedule (this, ws))
       \<and> length (snd (run_waiters schedule (this, ws))) = length ws
       \<and> (\<forall>i < length ws.
            snd (run_waiters schedule (this, ws)) ! i
              = advance (count_list schedule i) (ws ! i))"
  using assms
proof (induction schedule arbitrary: this ws)
  case Nil
  then show ?case by (simp add: run_waiters_def)
next
  case (Cons j schedule)
  obtain this' ws' where st: "waitValueReady_step j (this, ws) = (this', ws')"
    by (cases "waitValueReady_step j (this, ws)")
  from waitValueReady_step_invariant [OF Cons.prems, of j]
  have inv': "counts_pending (this', ws')"
    and ws': "ws' = (if j < length ws then ws[j := advance 1 (ws ! j)] else ws)"
    unfolding st snd_conv by blast+
  from ws' have len: "length ws' = length ws" by simp
  have run: "run_waiters (j # schedule) (this, ws) = run_waiters schedule (this', ws')"
    by (simp add: run_waiters_def st)
  note IH = Cons.IH [OF inv']
  have adv: "advance n (advance (Suc 0) w) = advance (Suc n) w" for n w
    by (cases w; cases n) simp_all
  have "snd (run_waiters schedule (this', ws')) ! i
          = advance (count_list (j # schedule) i) (ws ! i)" if "i < length ws" for i
  proof -
    from that len IH
    have "snd (run_waiters schedule (this', ws')) ! i = advance (count_list schedule i) (ws' ! i)"
      by simp
    also have "\<dots> = advance (count_list (j # schedule) i) (ws ! i)"
      using that ws' by (auto simp: adv)
    finally show ?thesis .
  qed
  with IH len show ?case by (simp add: run)
qed


lemma pending_replicate_Waiting: "pending (replicate k Waiting) = k"
  by (simp add: pending_def)

lemma advance_twice: "2 \<le> n \<Longrightarrow> advance n Waiting = Returned"
proof -
  assume "2 \<le> n"
  then obtain m where "n = Suc (Suc m)" by (metis add_2_eq_Suc le_Suc_ex)
  then show ?thesis by simp
qed

text \<open>
  After one \<open>notifyValueReady\<close> with \<open>allCount = k\<close>, exactly \<open>k\<close> callers of
  \<open>waitValueReady\<close> scheduled in any order: \<open>valueCount\<close> is always the number
  of callers that have not returned, so no caller is ever suspended, and once each
  caller has had two turns all have returned and \<open>valueCount\<close> is 0.
\<close>

lemma interleaved_waiters_all_return:
  fixes schedule :: "nat list" and a :: Argument
  assumes "0 < sint (allCount a)"
  defines "k \<equiv> nat (sint (allCount a))"
  defines "final \<equiv> run_waiters schedule (notifyValueReady a, replicate k Waiting)"
  shows "length (snd final) = k"
    and "valueCount (fst final) = word_of_nat (pending (snd final))"
    and "\<forall>i < k. snd final ! i = advance (count_list schedule i) Waiting"
    and "(\<forall>i < k. 2 \<le> count_list schedule i) \<longrightarrow>
           (\<forall>i < k. snd final ! i = Returned) \<and> valueCount (fst final) = 0"
proof -
  from assms(1) have nonneg: "0 \<le> sint (allCount a)" by simp
  have kw: "word_of_nat k = allCount a"
    unfolding k_def by (rule unat_nonneg_sint(2) [OF nonneg])
  have "int k < 2 ^ 31"
    using sint_lt [of "allCount a"] nonneg by (simp add: k_def)
  then have kb: "k < 2 ^ 31" by (metis of_nat_less_iff of_nat_numeral of_nat_power)
  have start: "counts_pending (notifyValueReady a, replicate k Waiting)"
    using kb by (simp add: counts_pending_def pending_replicate_Waiting kw
        notifyValueReady_def notify_all_def)
  note inv = run_waiters_invariant [OF start, of schedule, folded final_def]
  from inv show len: "length (snd final) = k" by simp
  from inv have "counts_pending (fst final, snd final)" by simp
  then show vc: "valueCount (fst final) = word_of_nat (pending (snd final))"
    by (simp add: counts_pending_def split_beta)
  from inv show st: "\<forall>i < k. snd final ! i = advance (count_list schedule i) Waiting"
    by simp
  show "(\<forall>i < k. 2 \<le> count_list schedule i) \<longrightarrow>
           (\<forall>i < k. snd final ! i = Returned) \<and> valueCount (fst final) = 0"
  proof
    assume fair: "\<forall>i < k. 2 \<le> count_list schedule i"
    with st have all: "\<forall>i < k. snd final ! i = Returned"
      by (simp add: advance_twice)
    with len have "\<forall>w \<in> set (snd final). w = Returned"
      by (metis in_set_conv_nth)
    then have "pending (snd final) = 0" by (simp add: pending_all_Returned)
    with vc all show "(\<forall>i < k. snd final ! i = Returned) \<and> valueCount (fst final) = 0"
      by simp
  qed
qed

text \<open>
  A caller that tests the predicate while \<open>valueCount\<close> is 0 stays suspended, and
  the next \<open>notifyValueReady\<close> lets it pass.
\<close>

lemma waiting_caller_suspended_at_zero:
  "i < length ws \<Longrightarrow> ws ! i = Waiting \<Longrightarrow> valueCount this = 0 \<Longrightarrow>
   waitValueReady_step i (this, ws) = (this, ws)"
  by (simp add: waitValueReady_step.simps waitValueReady_wait_def wait_def)

lemma waiting_caller_released_by_notify:
  "i < length ws \<Longrightarrow> ws ! i = Waiting \<Longrightarrow> allCount this \<noteq> 0 \<Longrightarrow>
   waitValueReady_step i (notifyValueReady this, ws) = (notifyValueReady this, ws[i := Woken])"
  by (simp add: waitValueReady_step.simps waitValueReady_wait_def wait_def
      notifyValueReady_def notify_all_def)

lemma late_caller_is_suspended:
  "run_waiters [0, 0, 1, 1] (notifyValueReady arg_fan1, [Waiting, Waiting])
     = (arg_fan1 \<lparr> valueCount := 0 \<rparr>, [Returned, Waiting])"
  by (simp add: run_waiters_def waitValueReady_step.simps waitValueReady_wait_def
      waitValueReady_decrement_def wait_def notifyValueReady_def notify_all_def
      arg_fan1_def Argument_default_def)

text \<open>
  C1. The claim asks that after one \<open>notifyValueReady\<close> with \<open>allCount = k\<close> the
  first \<open>k\<close> calls of \<open>waitValueReady\<close> return and a further call is suspended
  until the next notify. The code does not guarantee it when calls overlap. With
  \<open>allCount = 1\<close> and two callers, both can test the predicate while \<open>valueCount\<close>
  is still 1, the first caller not having decremented yet; then both decrement. Both
  callers return, none is suspended, and \<open>valueCount\<close> is left at \<open>-1\<close>.
\<close>

theorem value_ready_two_callers_both_return:
  "valueCount (notifyValueReady arg_fan1) = 1
   \<and> run_waiters [0, 1] (notifyValueReady arg_fan1, [Waiting, Waiting])
       = (arg_fan1 \<lparr> valueCount := 1 \<rparr>, [Woken, Woken])
   \<and> run_waiters [0, 1, 0, 1] (notifyValueReady arg_fan1, [Waiting, Waiting])
       = (arg_fan1 \<lparr> valueCount := - 1 \<rparr>, [Returned, Returned])
   \<and> sint (valueCount (fst (run_waiters [0, 1, 0, 1]
         (notifyValueReady arg_fan1, [Waiting, Waiting])))) = - 1"
  by (simp add: run_waiters_def waitValueReady_step.simps waitValueReady_wait_def
      waitValueReady_decrement_def wait_def notifyValueReady_def notify_all_def
      arg_fan1_def Argument_default_def)

section \<open>Summing costs\<close>

lemma summed_simps:
  "summed [] = []"
  "summed (arg # arguments) =
     (case value' arg of None \<Rightarrow> [] | Some p \<Rightarrow> [(deviceId arg, p)]) @ summed arguments"
  by (simp_all add: summed_def)

lemma sumCosts_loop_eq:
  "sumCosts_loop getSum s arguments cost d =
     (foldl (+) cost (map (\<lambda>(dev, p). getSum (matrices s p)) (summed arguments)),
      d \<lparr> reduce_log := reduce_log d @ summed arguments \<rparr>)"
proof (induction arguments arbitrary: cost d)
  case Nil
  show ?case by (simp add: summed_simps)
next
  case (Cons arg arguments)
  show ?case
  proof (cases "value' arg")
    case None
    then show ?thesis by (simp add: Cons.IH summed_simps)
  next
    case (Some p)
    then show ?thesis
      by (simp add: Cons.IH summed_simps SetDevice_def SetDevice_destroy_def Matrix_getSum_def)
  qed
qed

text \<open>
  C10. The cost returned by \<open>sumCosts\<close> is the sum, accumulated from 0 in list
  order, of \<open>getSum\<close> over the value matrices of exactly the descriptors that have a
  value; descriptors without one can be dropped from the list without changing
  anything; the empty list gives 0. Each of these reduce-sums runs with the active
  device set to the \<open>deviceId\<close> of its descriptor, and the device active before the
  call is active again after it.
\<close>

theorem sumCosts_sums_present_values:
  "fst (sumCosts getSum s arguments d)
     = foldl (+) 0 (map (\<lambda>(dev, p). getSum (matrices s p)) (summed arguments))
   \<and> reduce_log (snd (sumCosts getSum s arguments d)) = reduce_log d @ summed arguments
   \<and> active_device (snd (sumCosts getSum s arguments d)) = active_device d
   \<and> sumCosts getSum s [] d = (0, d)
   \<and> sumCosts getSum s arguments d
       = sumCosts getSum s (filter (\<lambda>arg. value' arg \<noteq> None) arguments) d
   \<and> summed arguments
       = map (\<lambda>arg. (deviceId arg, the (value' arg))) (filter (\<lambda>arg. value' arg \<noteq> None) arguments)"
proof -
  let ?present = "filter (\<lambda>arg. value' arg \<noteq> None) arguments"
  have f: "summed ?present = summed arguments"
    by (induction arguments) (auto simp: summed_simps)
  have c1: "fst (sumCosts getSum s arguments d)
     = foldl (+) 0 (map (\<lambda>(dev, p). getSum (matrices s p)) (summed arguments))"
    by (simp add: sumCosts_def sumCosts_loop_eq)
  have c2: "reduce_log (snd (sumCosts getSum s arguments d)) = reduce_log d @ summed arguments"
    by (simp add: sumCosts_def sumCosts_loop_eq)
  have c3: "active_device (snd (sumCosts getSum s arguments d)) = active_device d"
    by (simp add: sumCosts_def sumCosts_loop_eq)
  have c4: "sumCosts getSum s [] d = (0, d)"
    by (simp add: sumCosts_def)
  have c5: "sumCosts getSum s arguments d = sumCosts getSum s ?present d"
    unfolding sumCosts_def sumCosts_loop_eq f ..
  have c6: "summed arguments = map (\<lambda>arg. (deviceId arg, the (value' arg))) ?present"
    by (induction arguments) (auto simp: summed_simps)
  from c1 c2 c3 c4 c5 c6 show ?thesis by blast
qed

section \<open>Grouping by data source\<close>

lemma splitByDataId_head:
  "\<exists>grp grps. splitByDataId (argu # argus) = (argu # grp) # grps"
proof (induction argus arbitrary: argu)
  case Nil
  show ?case by simp
next
  case (Cons next_argu argus)
  from Cons [of next_argu] obtain g gs
    where "splitByDataId (next_argu # argus) = (next_argu # g) # gs" by blast
  then show ?case by simp
qed

lemma splitByDataId_not_Nil: "splitByDataId (argu # argus) \<noteq> []"
  using splitByDataId_head [of argu argus] by auto

lemma concat_splitByDataId: "concat (splitByDataId argus) = argus"
  by (induction argus rule: splitByDataId.induct)
     (auto simp: splitByDataId_not_Nil split: list.splits)

lemma splitByDataId_nonempty_groups: "[] \<notin> set (splitByDataId argus)"
  by (induction argus rule: splitByDataId.induct)
     (auto simp: splitByDataId_not_Nil split: list.splits)

lemma splitByDataId_groups_nondecreasing:
  "grp \<in> set (splitByDataId argus) \<Longrightarrow>
   successively (\<lambda>x y. sint (dataId x) \<le> sint (dataId y)) grp"
proof (induction argus arbitrary: grp rule: splitByDataId.induct)
  case 1
  then show ?case by simp
next
  case (2 argu)
  then show ?case by simp
next
  case (3 previous argu argus)
  obtain g gs where h: "splitByDataId (argu # argus) = (argu # g) # gs"
    using splitByDataId_head by blast
  show ?case
  proof (cases "sint (dataId argu) < sint (dataId previous)")
    case True
    with 3 show ?thesis by auto
  next
    case False
    with "3.prems" h have "grp = previous # argu # g \<or> grp \<in> set gs" by auto
    then show ?thesis
    proof
      assume g: "grp = previous # argu # g"
      have "successively (\<lambda>x y. sint (dataId x) \<le> sint (dataId y)) (argu # g)"
        using "3.IH"(2) [OF False, of "argu # g"] h by simp
      with False g show ?thesis by simp
    next
      assume "grp \<in> set gs"
      then show ?thesis using "3.IH"(2) [OF False, of grp] h by simp
    qed
  qed
qed

lemma splitByDataId_boundaries:
  "successively (\<lambda>g h. sint (dataId (hd h)) < sint (dataId (last g))) (splitByDataId argus)"
proof (induction argus rule: splitByDataId.induct)
  case 1
  then show ?case by simp
next
  case (2 argu)
  then show ?case by simp
next
  case (3 previous argu argus)
  obtain g gs where h: "splitByDataId (argu # argus) = (argu # g) # gs"
    using splitByDataId_head by blast
  show ?case
  proof (cases "sint (dataId argu) < sint (dataId previous)")
    case True
    with 3 h show ?thesis by simp
  next
    case False
    with 3 h show ?thesis by (cases gs) auto
  qed
qed

lemma successively_nth:
  "successively P xs \<Longrightarrow> Suc i < length xs \<Longrightarrow> P (xs ! i) (xs ! Suc i)"
proof (induction P xs arbitrary: i rule: successively.induct)
  case (3 P x y xs)
  then show ?case by (cases i) auto
qed simp_all

lemma nondecreasing_sorted_wrt:
  "successively (\<lambda>x y. sint (dataId x) \<le> sint (dataId y)) grp \<longleftrightarrow>
   sorted_wrt (\<lambda>x y. sint (dataId x) \<le> sint (dataId y)) grp"
  by (rule successively_conv_sorted_wrt) (auto simp: transp_def)

text \<open>
  C9. \<open>splitByDataId\<close> cuts the list into groups: the groups put together again
  are the list, no group is empty, \<open>dataId\<close> never decreases inside a group, and
  from the last descriptor of a group to the first of the next \<open>dataId\<close> decreases.
  The ids \<open>[0, 1, 2, 0, 1]\<close> give the two groups \<open>[0, 1, 2]\<close> and \<open>[0, 1]\<close>.
\<close>

theorem splitByDataId_partitions_at_decreases:
  "concat (splitByDataId argus) = argus
   \<and> [] \<notin> set (splitByDataId argus)
   \<and> (\<forall>grp \<in> set (splitByDataId argus).
         sorted_wrt (\<lambda>x y. sint (dataId x) \<le> sint (dataId y)) grp)
   \<and> (\<forall>i. Suc i < length (splitByDataId argus) \<longrightarrow>
         sint (dataId (hd (splitByDataId argus ! Suc i)))
           < sint (dataId (last (splitByDataId argus ! i))))
   \<and> map (map dataId) (splitByDataId (args_with_dataIds [0, 1, 2, 0, 1])) = [[0, 1, 2], [0, 1]]"
proof -
  have ex: "map (map dataId) (splitByDataId (args_with_dataIds [0, 1, 2, 0, 1]))
              = [[0, 1, 2], [0, 1]]"
    by (simp add: args_with_dataIds_def Argument_default_def)
  have b: "\<forall>i. Suc i < length (splitByDataId argus) \<longrightarrow>
         sint (dataId (hd (splitByDataId argus ! Suc i)))
           < sint (dataId (last (splitByDataId argus ! i)))"
    using successively_nth [OF splitByDataId_boundaries] by blast
  have s: "\<forall>grp \<in> set (splitByDataId argus).
         sorted_wrt (\<lambda>x y. sint (dataId x) \<le> sint (dataId y)) grp"
    using splitByDataId_groups_nondecreasing nondecreasing_sorted_wrt by blast
  from concat_splitByDataId splitByDataId_nonempty_groups s b ex show ?thesis by blast
qed

theorem splitByDataId_partitions_at_decreases_witness:
  "Suc 0 < length (splitByDataId (args_with_dataIds [0, 1, 2, 0, 1]))
   \<and> sint (dataId (hd (splitByDataId (args_with_dataIds [0, 1, 2, 0, 1]) ! Suc 0)))
       < sint (dataId (last (splitByDataId (args_with_dataIds [0, 1, 2, 0, 1]) ! 0)))
   \<and> concat (splitByDataId (args_with_dataIds [0, 1, 2, 0, 1])) = args_with_dataIds [0, 1, 2, 0, 1]
   \<and> sorted_wrt (\<lambda>x y. sint (dataId x) \<le> sint (dataId y))
         (hd (splitByDataId (args_with_dataIds [0, 1, 2, 0, 1])))"
  using splitByDataId_partitions_at_decreases [of "args_with_dataIds [0, 1, 2, 0, 1]"]
  by (simp add: args_with_dataIds_def)

section \<open>Concatenating descriptors\<close>

lemma wellFormedStarts_bounds:
  assumes "wellFormedStarts (batch, starts)"
  shows "0 \<le> sint batch" and "\<forall>x \<in> set starts. 0 \<le> sint x \<and> sint x \<le> sint batch"
proof -
  from assms have ne: "starts \<noteq> []" and h: "hd starts = 0" and l: "last starts = batch"
    and so: "sorted (map sint starts)"
    by (simp_all add: wellFormedStarts_def)
  from ne obtain x xs where c: "starts = x # xs" by (cases starts) auto
  with h have x: "x = 0" by simp
  from ne obtain ys y where sn: "starts = ys @ [y]" by (cases starts rule: rev_cases) auto
  with l have y: "y = batch" by simp
  show b: "\<forall>x \<in> set starts. 0 \<le> sint x \<and> sint x \<le> sint batch"
  proof
    fix z assume z: "z \<in> set starts"
    from so c x z have lo: "0 \<le> sint z" by auto
    from so sn y z have "sint z \<le> sint batch" by (auto simp: sorted_append)
    with lo show "0 \<le> sint z \<and> sint z \<le> sint batch" ..
  qed
  from b ne l show "0 \<le> sint batch" using last_in_set by fastforce
qed

lemma sum_sint_batches_nonneg:
  "\<forall>bs \<in> set srcs. wellFormedStarts bs \<Longrightarrow> 0 \<le> sum_list (map (\<lambda>bs. sint (fst bs)) srcs)"
proof (induction srcs)
  case Nil
  show ?case by simp
next
  case (Cons bs srcs)
  obtain batch starts where bs: "bs = (batch, starts)" by (cases bs)
  with Cons.prems have "wellFormedStarts (batch, starts)" by simp
  then have "0 \<le> sint batch" by (rule wellFormedStarts_bounds(1))
  moreover from Cons have "0 \<le> sum_list (map (\<lambda>bs. sint (fst bs)) srcs)" by simp
  ultimately show ?case by (simp add: bs)
qed

lemma concatStartPositions_sound:
  fixes offset :: c_int
  assumes "\<forall>bs \<in> set srcs. wellFormedStarts bs"
    and "0 \<le> sint offset"
    and "sint offset + sum_list (map (\<lambda>bs. sint (fst bs)) srcs) < 2 ^ 31"
  shows "concatStartPositions offset srcs \<noteq> []
    \<and> hd (concatStartPositions offset srcs) = offset
    \<and> sint (last (concatStartPositions offset srcs))
        = sint offset + sum_list (map (\<lambda>bs. sint (fst bs)) srcs)
    \<and> sorted (map sint (concatStartPositions offset srcs))
    \<and> (\<forall>x \<in> set (concatStartPositions offset srcs). sint offset \<le> sint x)"
  using assms
proof (induction srcs arbitrary: offset)
  case Nil
  show ?case by simp
next
  case (Cons bs srcs)
  obtain batch starts where bs: "bs = (batch, starts)" by (cases bs)
  let ?rest = "concatStartPositions (offset + batch) srcs"
  let ?chunk = "map (\<lambda>p. p + offset) (butlast starts)"
  from Cons.prems(1) bs have wf: "wellFormedStarts (batch, starts)"
    and wfs: "\<forall>bs \<in> set srcs. wellFormedStarts bs" by simp_all
  note bnd = wellFormedStarts_bounds [OF wf]
  from wf have ne: "starts \<noteq> []" and h: "hd starts = 0" and l: "last starts = batch"
    and so: "sorted (map sint starts)"
    by (simp_all add: wellFormedStarts_def)
  have tail_nonneg: "0 \<le> sum_list (map (\<lambda>bs. sint (fst bs)) srcs)"
    by (rule sum_sint_batches_nonneg [OF wfs])
  from Cons.prems(3) have total: "sint offset + sint batch + sum_list (map (\<lambda>bs. sint (fst bs)) srcs) < 2 ^ 31"
    by (simp add: bs)
  with tail_nonneg have ob: "sint offset + sint batch < 2 ^ 31" by linarith
  have shift: "sint (x + offset) = sint x + sint offset"
    if "0 \<le> sint x" "sint x \<le> sint batch" for x
  proof -
    from that ob have "sint x + sint offset < 2 ^ (LENGTH(32) - 1)" by simp
    from sint_add_no_overflow [OF that(1) Cons.prems(2) this] show ?thesis .
  qed
  have off': "sint (offset + batch) = sint offset + sint batch"
    using shift [of batch] bnd(1) by (simp add: add.commute)
  with Cons.prems(2) bnd(1) have nonneg': "0 \<le> sint (offset + batch)" by simp
  from total off' have total': "sint (offset + batch) + sum_list (map (\<lambda>bs. sint (fst bs)) srcs) < 2 ^ 31"
    by simp
  note IH = Cons.IH [OF wfs nonneg' total']
  have R: "concatStartPositions offset (bs # srcs) = ?chunk @ ?rest" by (simp add: bs)
  have chunk_bounds: "sint offset \<le> sint y \<and> sint y \<le> sint (offset + batch)"
    if "y \<in> set ?chunk" for y
  proof -
    from that obtain x where x: "x \<in> set (butlast starts)" and y: "y = x + offset" by auto
    from x have "x \<in> set starts" by (rule in_set_butlastD)
    with bnd(2) have "0 \<le> sint x" "sint x \<le> sint batch" by auto
    with shift [of x] y off' show ?thesis by simp
  qed
  have chunk_sorted: "sorted (map sint ?chunk)"
  proof -
    from so have "sorted (butlast (map sint starts))" by (rule sorted_butlast)
    then have "sorted (map sint (butlast starts))" by (simp add: map_butlast)
    then have sb: "sorted_wrt (\<lambda>x y. sint x \<le> sint y) (butlast starts)"
      by (simp add: sorted_map)
    have "sorted_wrt (\<lambda>x y. sint x \<le> sint y) ?chunk"
    proof (rule sorted_wrt_map_mono [OF sb])
      fix x y
      assume "x \<in> set (butlast starts)" "y \<in> set (butlast starts)" "sint x \<le> sint y"
      moreover from this have "x \<in> set starts" "y \<in> set starts"
        by (auto dest: in_set_butlastD)
      ultimately show "sint (x + offset) \<le> sint (y + offset)"
        using bnd(2) shift [of x] shift [of y] by simp
    qed
    then show ?thesis by (simp only: sorted_map)
  qed
  from IH have rest_ne: "?rest \<noteq> []" and rest_hd: "hd ?rest = offset + batch"
    and rest_last: "sint (last ?rest) = sint (offset + batch) + sum_list (map (\<lambda>bs. sint (fst bs)) srcs)"
    and rest_sorted: "sorted (map sint ?rest)"
    and rest_lower: "\<forall>x \<in> set ?rest. sint (offset + batch) \<le> sint x"
    by simp_all
  have c1: "concatStartPositions offset (bs # srcs) \<noteq> []"
    using rest_ne by (simp add: R)
  have c2: "hd (concatStartPositions offset (bs # srcs)) = offset"
  proof (cases "butlast starts")
    case Nil
    with ne have "starts = [last starts]"
      by (metis append_butlast_last_id append_Nil)
    with h l have "batch = 0" by (metis list.sel(1))
    with Nil rest_hd show ?thesis by (simp add: R)
  next
    case (Cons x xs)
    with ne have "hd starts = x"
      by (metis append_butlast_last_id hd_append2 list.sel(1) list.distinct(1))
    with h Cons show ?thesis by (simp add: R)
  qed
  have c3: "sint (last (concatStartPositions offset (bs # srcs)))
        = sint offset + sum_list (map (\<lambda>bs. sint (fst bs)) (bs # srcs))"
    using rest_ne rest_last off' by (simp add: R bs)
  have c4: "sorted (map sint (concatStartPositions offset (bs # srcs)))"
  proof -
    have "\<forall>x \<in> set ?chunk. \<forall>y \<in> set ?rest. sint x \<le> sint y"
      using chunk_bounds rest_lower by (meson order_trans)
    with chunk_sorted rest_sorted show ?thesis
      unfolding R by (simp add: sorted_append)
  qed
  have c5: "\<forall>x \<in> set (concatStartPositions offset (bs # srcs)). sint offset \<le> sint x"
  proof
    fix x assume "x \<in> set (concatStartPositions offset (bs # srcs))"
    then have "x \<in> set ?chunk \<or> x \<in> set ?rest" unfolding R by simp
    then show "sint offset \<le> sint x"
    proof
      assume "x \<in> set ?chunk"
      with chunk_bounds show ?thesis by blast
    next
      assume "x \<in> set ?rest"
      with rest_lower have "sint (offset + batch) \<le> sint x" by blast
      with off' bnd(1) show ?thesis by simp
    qed
  qed
  from c1 c2 c3 c4 c5 show ?case by blast
qed


lemma sourceValues_heights:
  "sourceValues s src = Some ms \<Longrightarrow> map getHeight ms = map (getBatchSize s) src"
proof (induction src arbitrary: ms)
  case Nil
  then show ?case by simp
next
  case (Cons arg src)
  then show ?case by (auto simp: getBatchSize_def split: option.splits)
qed

lemma sourceStartPositions_wellFormed:
  "\<forall>arg \<in> set src. wellFormedSource s arg \<Longrightarrow>
   \<exists>bs. sourceStartPositions s src = Some bs
      \<and> (\<forall>b \<in> set bs. wellFormedStarts b)
      \<and> map fst bs = map (\<lambda>arg. ucast (getBatchSize s arg)) src"
proof (induction src)
  case Nil
  show ?case by simp
next
  case (Cons arg src)
  then obtain bs where "sourceStartPositions s src = Some bs"
      "\<forall>b \<in> set bs. wellFormedStarts b"
      "map fst bs = map (\<lambda>arg. ucast (getBatchSize s arg)) src"
    by auto
  moreover from Cons.prems obtain p where "sequenceStartPositions arg = Some p"
      "wellFormedStarts (ucast (getBatchSize s arg), icpugpuvectors s p)"
    by (auto simp: wellFormedSource_def split: option.splits)
  ultimately show ?case by simp
qed

lemma sum_sint_ucast_batches:
  fixes hs :: "64 word list"
  assumes "sum_list (map unat hs) < 2 ^ 31"
  shows "sum_list (map (\<lambda>h. sint (ucast h :: 32 word)) hs) = int (sum_list (map unat hs))"
  using assms
proof (induction hs)
  case Nil
  show ?case by simp
next
  case (Cons h hs)
  from Cons.prems have "unat h < 2 ^ 31" and "sum_list (map unat hs) < 2 ^ 31" by simp_all
  with Cons.IH show ?case by (simp add: sint_ucast_small)
qed

lemma concat_boundaries_general:
  assumes vals: "sourceValues s src = Some ms" and widths: "sameWidth ms"
    and wf: "\<forall>arg \<in> set src. wellFormedSource s arg"
    and total: "sum_list (map (\<lambda>arg. unat (getBatchSize s arg)) src) < 2 ^ 31"
  shows "\<exists>s' r bs starts.
           concat' s this src valueAddr seqAddr = Some (s', r)
         \<and> unat (getBatchSize s' r) = sum_list (map (\<lambda>arg. unat (getBatchSize s arg)) src)
         \<and> sourceStartPositions s src = Some bs
         \<and> sequenceStartPositions r = Some seqAddr
         \<and> icpugpuvectors s' seqAddr = starts
         \<and> starts = concatStartPositions 0 bs
         \<and> starts \<noteq> [] \<and> hd starts = 0
         \<and> sint (last starts) = int (unat (getBatchSize s' r))
         \<and> sorted (map sint starts)"
proof -
  let ?T = "sum_list (map (\<lambda>arg. unat (getBatchSize s arg)) src)"
  from sourceStartPositions_wellFormed [OF wf] obtain bs
    where bs: "sourceStartPositions s src = Some bs"
      and bswf: "\<forall>b \<in> set bs. wellFormedStarts b"
      and fsts: "map fst bs = map (\<lambda>arg. ucast (getBatchSize s arg)) src"
    by blast
  let ?s1 = "s \<lparr> matrices := (matrices s)(valueAddr := concatRows ms) \<rparr>"
  let ?s' = "?s1 \<lparr> icpugpuvectors := (icpugpuvectors ?s1)(seqAddr := concatStartPositions 0 bs) \<rparr>"
  let ?r = "this \<lparr> value' := Some valueAddr, sequenceStartPositions := Some seqAddr \<rparr>"
  let ?starts = "concatStartPositions 0 bs"
  have res: "concat' s this src valueAddr seqAddr = Some (?s', ?r)"
    by (simp add: concat'_def vals widths bs)
  have "getBatchSize ?s' ?r = sum_list (map getHeight ms)"
    by (simp add: getBatchSize_def concatRows_def)
  also have "\<dots> = sum_list (map (getBatchSize s) src)"
    by (simp add: sourceValues_heights [OF vals])
  finally have batch: "getBatchSize ?s' ?r = sum_list (map (getBatchSize s) src)" .
  have T': "sum_list (map unat (map (getBatchSize s) src)) = ?T"
    by (simp add: comp_def)
  have "?T < 2 ^ LENGTH(64)"
    by (rule less_trans [OF total]) simp
  then have "unat (sum_list (map (getBatchSize s) src)) = ?T"
    using unat_sum_list [of "map (getBatchSize s) src"] by (simp add: comp_def)
  with batch have ubatch: "unat (getBatchSize ?s' ?r) = ?T" by simp
  have "sum_list (map (\<lambda>b. sint (fst b)) bs) = sum_list (map sint (map fst bs))"
    by (simp add: comp_def)
  also have "\<dots> = sum_list (map (\<lambda>h. sint (ucast h :: 32 word)) (map (getBatchSize s) src))"
    by (simp add: fsts comp_def)
  also have "\<dots> = int ?T"
    using sum_sint_ucast_batches [of "map (getBatchSize s) src"] total by (simp add: comp_def)
  finally have sums: "sum_list (map (\<lambda>b. sint (fst b)) bs) = int ?T" .
  have "sint (0 :: c_int) + sum_list (map (\<lambda>b. sint (fst b)) bs) < 2 ^ 31"
    using total by (simp add: sums)
  from concatStartPositions_sound [OF bswf _ this]
  have sound: "?starts \<noteq> []" "hd ?starts = 0"
      "sint (last ?starts) = sum_list (map (\<lambda>b. sint (fst b)) bs)"
      "sorted (map sint ?starts)"
    by simp_all
  have v: "icpugpuvectors ?s' seqAddr = ?starts" by simp
  have q: "sequenceStartPositions ?r = Some seqAddr" by simp
  from sound(3) sums ubatch have lst: "sint (last ?starts) = int (unat (getBatchSize ?s' ?r))"
    by simp
  from res ubatch bs q v sound(1,2,4) lst show ?thesis by blast
qed

lemma concat_4_5:
  "getBatchSize store_4_5 arg_4 = 4 \<and> getBatchSize store_4_5 arg_5 = 5
   \<and> (\<exists>s r. concat' store_4_5 Argument_default [arg_4, arg_5] 3 3 = Some (s, r)
         \<and> getBatchSize s r = 9
         \<and> getCpuStartPositions s r = Inr (Host, [0, 4, 9]))"
  by (simp add: concat'_def store_4_5_def store0_def arg_4_def arg_5_def Argument_default_def
      getBatchSize_def sameWidth_def concatRows_def getCpuStartPositions_def hasSubseq_def
      deref_def getData_def)

text \<open>
  C8. Sources that all have a value of one width and a well-formed boundary vector,
  with fewer than \<open>2 ^ 31\<close> rows in total: \<open>concat\<close> returns a descriptor whose
  batch size is the sum of the batch sizes of the sources and whose boundary vector is
  the running-offset concatenation of theirs; this vector starts with 0, ends with the
  new batch size and never decreases. For the two descriptors with 4 and 5 rows and the
  vectors \<open>[0, 4]\<close> and \<open>[0, 5]\<close> the batch size is 9 and the vector \<open>[0, 4, 9]\<close>.
\<close>

theorem concat_boundaries_from_0_to_total:
  "(sourceValues s src = Some ms \<and> sameWidth ms
      \<and> (\<forall>arg \<in> set src. wellFormedSource s arg)
      \<and> sum_list (map (\<lambda>arg. unat (getBatchSize s arg)) src) < 2 ^ 31
    \<longrightarrow> (\<exists>s' r bs starts.
           concat' s this src valueAddr seqAddr = Some (s', r)
         \<and> unat (getBatchSize s' r) = sum_list (map (\<lambda>arg. unat (getBatchSize s arg)) src)
         \<and> sourceStartPositions s src = Some bs
         \<and> sequenceStartPositions r = Some seqAddr
         \<and> icpugpuvectors s' seqAddr = starts
         \<and> starts = concatStartPositions 0 bs
         \<and> starts \<noteq> [] \<and> hd starts = 0
         \<and> sint (last starts) = int (unat (getBatchSize s' r))
         \<and> sorted (map sint starts)))
   \<and> (getBatchSize store_4_5 arg_4 = 4 \<and> getBatchSize store_4_5 arg_5 = 5
      \<and> (\<exists>s r. concat' store_4_5 Argument_default [arg_4, arg_5] 3 3 = Some (s, r)
            \<and> getBatchSize s r = 9
            \<and> getCpuStartPositions s r = Inr (Host, [0, 4, 9])))"
  using concat_boundaries_general [of s src ms this valueAddr seqAddr] concat_4_5
  by blast

theorem concat_boundaries_from_0_to_total_witness:
  "sourceValues store_4_5 [arg_4, arg_5]
     = Some [matrices store_4_5 1, matrices store_4_5 2]
   \<and> sameWidth [matrices store_4_5 1, matrices store_4_5 2]
   \<and> wellFormedSource store_4_5 arg_4 \<and> wellFormedSource store_4_5 arg_5
   \<and> sum_list (map (\<lambda>arg. unat (getBatchSize store_4_5 arg)) [arg_4, arg_5]) < 2 ^ 31
   \<and> (\<exists>s' r starts.
         concat' store_4_5 Argument_default [arg_4, arg_5] 3 3 = Some (s', r)
       \<and> unat (getBatchSize s' r) = 9
       \<and> icpugpuvectors s' 3 = starts
       \<and> starts \<noteq> [] \<and> hd starts = 0
       \<and> sint (last starts) = int (unat (getBatchSize s' r))
       \<and> sorted (map sint starts))"
proof -
  have b: "getBatchSize store_4_5 arg_4 = 4" "getBatchSize store_4_5 arg_5 = 5"
    by (simp_all add: getBatchSize_def store_4_5_def store0_def arg_4_def arg_5_def
        Argument_default_def)
  have h1: "sourceValues store_4_5 [arg_4, arg_5]
     = Some [matrices store_4_5 1, matrices store_4_5 2]"
    by (simp add: arg_4_def arg_5_def Argument_default_def)
  have h2: "sameWidth [matrices store_4_5 1, matrices store_4_5 2]"
    by (simp add: sameWidth_def store_4_5_def store0_def)
  have h3: "\<forall>arg \<in> set [arg_4, arg_5]. wellFormedSource store_4_5 arg"
  proof -
    have "sequenceStartPositions arg_4 = Some 1" "sequenceStartPositions arg_5 = Some 2"
      by (simp_all add: arg_4_def arg_5_def)
    moreover have "icpugpuvectors store_4_5 1 = [0, 4]" "icpugpuvectors store_4_5 2 = [0, 5]"
      by (simp_all add: store_4_5_def)
    ultimately show ?thesis
      by (simp add: wellFormedSource_def wellFormedStarts_def b)
  qed
  have h4: "sum_list (map (\<lambda>arg. unat (getBatchSize store_4_5 arg)) [arg_4, arg_5]) = 9"
    by (simp add: b)
  have h4': "sum_list (map (\<lambda>arg. unat (getBatchSize store_4_5 arg)) [arg_4, arg_5]) < 2 ^ 31"
    by (simp add: b)
  have imp: "sourceValues store_4_5 [arg_4, arg_5]
        = Some [matrices store_4_5 1, matrices store_4_5 2]
      \<and> sameWidth [matrices store_4_5 1, matrices store_4_5 2]
      \<and> (\<forall>arg \<in> set [arg_4, arg_5]. wellFormedSource store_4_5 arg)
      \<and> sum_list (map (\<lambda>arg. unat (getBatchSize store_4_5 arg)) [arg_4, arg_5]) < 2 ^ 31
    \<longrightarrow> (\<exists>s' r bs starts.
           concat' store_4_5 Argument_default [arg_4, arg_5] 3 3 = Some (s', r)
         \<and> unat (getBatchSize s' r)
             = sum_list (map (\<lambda>arg. unat (getBatchSize store_4_5 arg)) [arg_4, arg_5])
         \<and> sourceStartPositions store_4_5 [arg_4, arg_5] = Some bs
         \<and> sequenceStartPositions r = Some 3
         \<and> icpugpuvectors s' 3 = starts
         \<and> starts = concatStartPositions 0 bs
         \<and> starts \<noteq> [] \<and> hd starts = 0
         \<and> sint (last starts) = int (unat (getBatchSize s' r))
         \<and> sorted (map sint starts))"
    by (rule conjunct1 [OF concat_boundaries_from_0_to_total
          [of store_4_5 "[arg_4, arg_5]" "[matrices store_4_5 1, matrices store_4_5 2]"
              Argument_default 3 3]])
  from h1 h2 h3 h4' have hyps: "sourceValues store_4_5 [arg_4, arg_5]
        = Some [matrices store_4_5 1, matrices store_4_5 2]
      \<and> sameWidth [matrices store_4_5 1, matrices store_4_5 2]
      \<and> (\<forall>arg \<in> set [arg_4, arg_5]. wellFormedSource store_4_5 arg)
      \<and> sum_list (map (\<lambda>arg. unat (getBatchSize store_4_5 arg)) [arg_4, arg_5]) < 2 ^ 31"
    by (intro conjI)
  from mp [OF imp hyps] obtain s' r bs starts
    where c: "concat' store_4_5 Argument_default [arg_4, arg_5] 3 3 = Some (s', r)"
      and u: "unat (getBatchSize s' r)
             = sum_list (map (\<lambda>arg. unat (getBatchSize store_4_5 arg)) [arg_4, arg_5])"
      and v: "icpugpuvectors s' 3 = starts"
      and w: "starts \<noteq> []" "hd starts = 0"
        "sint (last starts) = int (unat (getBatchSize s' r))" "sorted (map sint starts)"
    by blast
  from u h4 have "unat (getBatchSize s' r) = 9" by (simp only:)
  with c v w have "\<exists>s' r starts.
         concat' store_4_5 Argument_default [arg_4, arg_5] 3 3 = Some (s', r)
       \<and> unat (getBatchSize s' r) = 9
       \<and> icpugpuvectors s' 3 = starts
       \<and> starts \<noteq> [] \<and> hd starts = 0
       \<and> sint (last starts) = int (unat (getBatchSize s' r))
       \<and> sorted (map sint starts)"
    by blast
  with hyps show ?thesis by simp
qed

end
